theory Spec2Isabelle
  imports Main
begin

section \<open>The robo request router (mux.go)\<close>

text \<open>
  A shallow embedding of \<^verbatim>\<open>mux.go\<close>: the parameter scopes, the route registry
  (\<^verbatim>\<open>Mux.Add\<close>, \<^verbatim>\<open>newRoute\<close>, \<^verbatim>\<open>route.Check\<close>) and the dispatch queue
  (\<^verbatim>\<open>queue.serveNext\<close>, \<^verbatim>\<open>Request.Next\<close>, \<^verbatim>\<open>Mux.ServeRoboHTTP\<close>,
  \<^verbatim>\<open>Mux.ServeHTTP\<close>).
\<close>

subsection \<open>Parameter scopes\<close>

text \<open>
  \<^verbatim>\<open>type Parameters struct { parent *Parameters; values map[string]string }\<close>

  The parent pointer is \<open>None\<close> for nil. The map is \<open>None\<close> for a nil map and
  \<open>Some m\<close> for an allocated one; reading a key that is not in a Go map gives the
  zero value, the empty string. The field \<^verbatim>\<open>values\<close> is written \<open>values'\<close>, since
  the plain name is reserved in Isabelle.
\<close>

datatype Parameters =
  Parameters (parent: "Parameters option") (values': "(string \<rightharpoonup> string) option")

text \<open>The Go expression \<^verbatim>\<open>m[key]\<close> on a non-nil \<^verbatim>\<open>map[string]string\<close>.\<close>

definition index_map :: "(string \<rightharpoonup> string) \<Rightarrow> string \<Rightarrow> string" where
  "index_map m key = (case m key of None \<Rightarrow> [] | Some v \<Rightarrow> v)"

text \<open>
  \<^verbatim>\<open>func (p *Parameters) set(key, value string)\<close>: allocates the map when it is nil,
  then stores the value.
\<close>

definition set_param :: "Parameters \<Rightarrow> string \<Rightarrow> string \<Rightarrow> Parameters" where
  "set_param p key v =
     (let p1 = (if values' p = None then Parameters (Parameters.parent p) (Some Map.empty) else p)
      in Parameters (Parameters.parent p1) (map_option (\<lambda>m. m(key \<mapsto> v)) (values' p1)))"

text \<open>
  \<^verbatim>\<open>func (p *Parameters) Get(key string) string\<close>, on a non-nil receiver:
  \<^verbatim>\<open>
  if p.values != nil {
    if v := p.values[key]; v != "" { return v }
  }
  if p.parent != nil { return p.parent.Get(key) }
  return ""
  \<close>
\<close>

fun Get :: "Parameters \<Rightarrow> string \<Rightarrow> string" where
  "Get (Parameters par vs) key =
     (let found = (case vs of
                     None \<Rightarrow> None
                   | Some m \<Rightarrow> (let v = index_map m key in if v \<noteq> [] then Some v else None))
      in case found of
           Some v \<Rightarrow> v
         | None \<Rightarrow> (case par of Some p' \<Rightarrow> Get p' key | None \<Rightarrow> []))"

subsection \<open>Handlers and routes\<close>

text \<open>
  A Go panic is a value of type \<open>panic\<close>: the two explicit panics of \<^verbatim>\<open>Add\<close>, and
  the two run-time panics that the statements of \<^verbatim>\<open>serveNext\<close> can raise
  (\<^verbatim>\<open>r.handlers[1:]\<close> on an empty slice, a field access through a nil pointer).
\<close>

datatype panic =
    NoHandlersProvided
  | NotAValidHandler
  | SliceBoundsOutOfRange
  | NilPointerDereference

text \<open>
  An argument of \<^verbatim>\<open>Add\<close> has the static type \<^verbatim>\<open>interface{}\<close>. The type switch of
  \<^verbatim>\<open>Add\<close> asks four questions about its dynamic type, in this order; the record
  holds the underlying value \<open>val\<close> (of an arbitrary type \<open>'v\<close>) and the four answers.
  The nil interface value answers no to all four.
\<close>

record 'v arg =
  val :: 'v
  implementsHandler :: bool  \<comment> \<open>\<^verbatim>\<open>case Handler\<close>\<close>
  isRoboFunc :: bool  \<comment> \<open>\<^verbatim>\<open>case func(w ResponseWriter, r *Request)\<close>\<close>
  implementsHttpHandler :: bool  \<comment> \<open>\<^verbatim>\<open>case http.Handler\<close>\<close>
  isHttpFunc :: bool  \<comment> \<open>\<^verbatim>\<open>case func(w http.ResponseWriter, r *http.Request)\<close>\<close>

text \<open>
  The values that \<^verbatim>\<open>Add\<close> stores: the argument itself when it is a
  \<^verbatim>\<open>Handler\<close>, and the adaptors \<^verbatim>\<open>HandlerFunc(h)\<close>, \<^verbatim>\<open>httpHandler{h}\<close> and
  \<^verbatim>\<open>httpHandler{http.HandlerFunc(h)}\<close> otherwise.
\<close>

datatype 'v http_Handler = http_Handler 'v | http_HandlerFunc 'v

datatype 'v Handler = Handler 'v | HandlerFunc 'v | httpHandler "'v http_Handler"

text \<open>
  \<^verbatim>\<open>type route struct { method string; pattern string; handlers []Handler }\<close>

  The field \<^verbatim>\<open>method\<close> is written \<open>method'\<close>, since the plain name is reserved in
  Isabelle.
\<close>

record 'v route =
  method' :: string
  pattern :: string
  handlers :: "'v Handler list"

text \<open>\<^verbatim>\<open>func newRoute(method, pattern string, handlers []Handler) route\<close>\<close>

definition newRoute :: "string \<Rightarrow> string \<Rightarrow> 'v Handler list \<Rightarrow> 'v route" where
  "newRoute meth pat hs = \<lparr>method' = meth, pattern = pat, route.handlers = hs\<rparr>"

text \<open>
  \<^verbatim>\<open>func (r *route) Check(method, path string) (bool, *Parameters)\<close>, whose body is
  \<^verbatim>\<open>return false, nil\<close>.
\<close>

definition Check :: "'v route \<Rightarrow> string \<Rightarrow> string \<Rightarrow> bool \<times> Parameters option" where
  "Check r meth path = (False, None)"

subsection \<open>The route registry\<close>

text \<open>\<^verbatim>\<open>type Mux struct { routes []route }\<close>; the zero value has no routes.\<close>

record 'v Mux =
  routes :: "'v route list"

definition zero_Mux :: "'v Mux" where
  "zero_Mux = \<lparr>Mux.routes = []\<rparr>"

text \<open>
  The loop of \<^verbatim>\<open>Add\<close> over its arguments, with the slice \<^verbatim>\<open>clean\<close> as accumulator:
  each argument is appended in its adapted form, and the first one that matches no case
  of the type switch panics.
\<close>

fun clean_handlers :: "'v arg list \<Rightarrow> 'v Handler list \<Rightarrow> panic + 'v Handler list" where
  "clean_handlers [] clean = Inr clean"
| "clean_handlers (h # hs) clean =
     (if implementsHandler h then clean_handlers hs (clean @ [Handler (val h)])
      else if isRoboFunc h then clean_handlers hs (clean @ [HandlerFunc (val h)])
      else if implementsHttpHandler h then
        clean_handlers hs (clean @ [httpHandler (http_Handler (val h))])
      else if isHttpFunc h then
        clean_handlers hs (clean @ [httpHandler (http_HandlerFunc (val h))])
      else Inl NotAValidHandler)"

text \<open>
  \<^verbatim>\<open>func (m *Mux) Add(method, pattern string, handlers ...interface{})\<close>. The result
  is the Mux as the call leaves it, and the panic that ended the call, if any.
\<close>

definition Add :: "'v Mux \<Rightarrow> string \<Rightarrow> string \<Rightarrow> 'v arg list \<Rightarrow> 'v Mux \<times> panic option" where
  "Add m meth pat hs =
     (if length hs = 0 then (m, Some NoHandlersProvided)
      else case clean_handlers hs [] of
             Inl e \<Rightarrow> (m, Some e)
           | Inr clean \<Rightarrow> (m\<lparr>Mux.routes := Mux.routes m @ [newRoute meth pat clean]\<rparr>, None))"

subsection \<open>The dispatch queue\<close>

text \<open>
  Of an \<^verbatim>\<open>*http.Request\<close> the router reads \<^verbatim>\<open>hr.Method\<close> and \<^verbatim>\<open>hr.URL.Path\<close>.
  A request handed over by \<^verbatim>\<open>net/http\<close> is not nil and has a URL.
\<close>

record http_Request =
  Method :: string
  Path :: string

text \<open>
  \<^verbatim>\<open>type queue struct { handlers []Handler; routes []route; parent, self *Parameters }\<close>

  Queues are shared through pointers: every request that \<^verbatim>\<open>serveNext\<close> builds holds
  the address of the queue, and \<^verbatim>\<open>serveNext\<close> updates the queue in place. The store of
  queues is a list, a queue's address is its index, and allocation appends.
\<close>

record 'v queue =
  handlers :: "'v Handler list"
  routes :: "'v route list"
  parent :: "Parameters option"
  self :: "Parameters option"

type_synonym qref = nat

type_synonym 'v store = "'v queue list"

text \<open>
  \<^verbatim>\<open>type Request struct { *http.Request; Params *Parameters; queue *queue }\<close>
\<close>

record Request =
  Request :: http_Request
  Params :: "Parameters option"
  queue :: "qref option"

text \<open>
  The call \<^verbatim>\<open>h.ServeRoboHTTP(w, r)\<close> of a handler \<open>h\<close> with the response writer
  \<open>w\<close> (of an arbitrary type \<open>'w\<close>) and the request \<open>r\<close>.
\<close>

datatype ('v, 'w) call = ServeRoboHTTP_call "'v Handler" 'w Request

type_synonym 'v check = "'v route \<Rightarrow> string \<Rightarrow> string \<Rightarrow> bool \<times> Parameters option"

text \<open>
  The \<^verbatim>\<open>for len(q.routes) > 0\<close> loop of \<^verbatim>\<open>serveNext\<close>, on the queue \<open>q\<close>. The
  method \<^verbatim>\<open>r.Check\<close> is the parameter \<open>chk\<close>, so the loop is verified for every
  matcher; the repository's matcher is \<^const>\<open>Check\<close>. The loop ends with the queue
  and the handler to invoke (none when the routes ran out), or with a panic:
  \<^verbatim>\<open>
  r := q.routes[0]
  q.routes = q.routes[1:]
  ok, params := r.Check(hr.Method, hr.URL.Path)
  if !ok { continue }
  q.handlers = r.handlers[1:]
  q.self = params
  q.self.parent = q.parent
  r.handlers[0].ServeRoboHTTP(w, &Request{hr, q.self, q})
  return
  \<close>
\<close>

function next_route ::
  "'v check \<Rightarrow> 'v queue \<Rightarrow> http_Request \<Rightarrow> panic + 'v queue \<times> 'v Handler option" where
  "next_route chk q hr =
     (case queue.routes q of
        [] \<Rightarrow> Inr (q, None)
      | r # rs \<Rightarrow>
          (let q1 = q\<lparr>queue.routes := rs\<rparr>;
               (ok, params) = chk r (Method hr) (Path hr)
           in if \<not> ok then next_route chk q1 hr
              else (case route.handlers r of
                      [] \<Rightarrow> Inl SliceBoundsOutOfRange
                    | h # hs \<Rightarrow>
                        (let q2 = q1\<lparr>queue.handlers := hs, self := params\<rparr>
                         in case self q2 of
                              None \<Rightarrow> Inl NilPointerDereference
                            | Some p \<Rightarrow>
                                Inr (q2\<lparr>self := Some (Parameters (queue.parent q2) (values' p))\<rparr>,
                                     Some h)))))"
  by pat_completeness auto
termination
  by (relation "measure (\<lambda>(chk, q, hr). length (queue.routes q))") auto

declare next_route.simps [simp del]

text \<open>
  \<^verbatim>\<open>func (q *queue) serveNext(w ResponseWriter, hr *http.Request)\<close>, with the
  receiver \<open>a\<close> an address in the store \<open>s\<close>. The handler call is the last thing
  \<^verbatim>\<open>serveNext\<close> does on either path, so the result is the store at the moment of the
  call together with the calls made: none or one. An address outside the store stands
  for the nil receiver.
\<close>

definition serveNext ::
  "'v check \<Rightarrow> qref \<Rightarrow> 'w \<Rightarrow> http_Request \<Rightarrow> 'v store \<Rightarrow> panic + 'v store \<times> ('v, 'w) call list" where
  "serveNext chk a w hr s =
     (if \<not> a < length s then Inl NilPointerDereference
      else let q = s ! a in
        case queue.handlers q of
          h # hs \<Rightarrow>
            (let q1 = q\<lparr>queue.handlers := hs\<rparr>
             in Inr (s[a := q1],
                     [ServeRoboHTTP_call h w \<lparr>Request = hr, Params = self q1, queue = Some a\<rparr>]))
        | [] \<Rightarrow>
            (case next_route chk q hr of
               Inl e \<Rightarrow> Inl e
             | Inr (q1, None) \<Rightarrow> Inr (s[a := q1], [])
             | Inr (q1, Some h) \<Rightarrow>
                 Inr (s[a := q1],
                      [ServeRoboHTTP_call h w \<lparr>Request = hr, Params = self q1, queue = Some a\<rparr>])))"

text \<open>\<^verbatim>\<open>func (r *Request) Next(w ResponseWriter)\<close>: \<^verbatim>\<open>r.queue.serveNext(w, r.Request)\<close>.\<close>

definition Next ::
  "'v check \<Rightarrow> Request \<Rightarrow> 'w \<Rightarrow> 'v store \<Rightarrow> panic + 'v store \<times> ('v, 'w) call list" where
  "Next chk r w s =
     (case queue r of
        None \<Rightarrow> Inl NilPointerDereference
      | Some a \<Rightarrow> serveNext chk a w (Request r) s)"

text \<open>
  \<^verbatim>\<open>func (m *Mux) ServeRoboHTTP(w ResponseWriter, r *Request)\<close>:
  \<^verbatim>\<open>q := queue{nil, m.routes, r.Params, nil}; q.serveNext(w, r.Request)\<close>.
  The new queue is allocated at the end of the store.
\<close>

definition ServeRoboHTTP ::
  "'v check \<Rightarrow> 'v Mux \<Rightarrow> 'w \<Rightarrow> Request \<Rightarrow> 'v store \<Rightarrow> panic + 'v store \<times> ('v, 'w) call list" where
  "ServeRoboHTTP chk m w r s =
     (let q = \<lparr>queue.handlers = [], queue.routes = Mux.routes m,
                queue.parent = Params r, self = None\<rparr>
      in serveNext chk (length s) w (Request r) (s @ [q]))"

text \<open>
  \<^verbatim>\<open>func (m *Mux) ServeHTTP(w http.ResponseWriter, r *http.Request)\<close>:
  \<^verbatim>\<open>m.ServeRoboHTTP(w, &Request{Request: r})\<close>.
\<close>

definition ServeHTTP ::
  "'v check \<Rightarrow> 'v Mux \<Rightarrow> 'w \<Rightarrow> http_Request \<Rightarrow> 'v store \<Rightarrow> panic + 'v store \<times> ('v, 'w) call list" where
  "ServeHTTP chk m w hr s =
     ServeRoboHTTP chk m w \<lparr>Request = hr, Params = None, queue = None\<rparr> s"

text \<open>
  \<open>n\<close> successive calls of the continuation of the queue at \<open>a\<close>, as made by a chain
  in which every handler calls \<^verbatim>\<open>r.Next(w)\<close>; the calls made are collected in order
  and the first panic ends the run.
\<close>

fun serveNext_times ::
  "'v check \<Rightarrow> qref \<Rightarrow> 'w \<Rightarrow> http_Request \<Rightarrow> nat \<Rightarrow> 'v store \<Rightarrow> panic + 'v store \<times> ('v, 'w) call list" where
  "serveNext_times chk a w hr 0 s = Inr (s, [])"
| "serveNext_times chk a w hr (Suc n) s =
     (case serveNext chk a w hr s of
        Inl e \<Rightarrow> Inl e
      | Inr (s1, cs) \<Rightarrow>
          (case serveNext_times chk a w hr n s1 of
             Inl e \<Rightarrow> Inl e
           | Inr (s2, cs') \<Rightarrow> Inr (s2, cs @ cs')))"

subsection \<open>Notions used in the statements\<close>

text \<open>The scopes reachable from a scope through the parent pointers, nearest first.\<close>

fun chain :: "Parameters \<Rightarrow> Parameters list" where
  "chain (Parameters par vs) =
     Parameters par vs # (case par of None \<Rightarrow> [] | Some p \<Rightarrow> chain p)"

text \<open>
  The binding of a key in one scope, without its parents; a key is unbound in a scope
  that has no entry for it, or has the empty string.
\<close>

definition binding :: "Parameters \<Rightarrow> string \<Rightarrow> string option" where
  "binding p key = (case values' p of None \<Rightarrow> None | Some m \<Rightarrow> m key)"

definition unbound :: "Parameters \<Rightarrow> string \<Rightarrow> bool" where
  "unbound p key = (binding p key = None \<or> binding p key = Some [])"

text \<open>
  An argument of one of the four accepted shapes, and the handler that \<^verbatim>\<open>Add\<close>
  stores for it.
\<close>

definition recognized :: "'v arg \<Rightarrow> bool" where
  "recognized h =
     (implementsHandler h \<or> isRoboFunc h \<or> implementsHttpHandler h \<or> isHttpFunc h)"

definition adapted :: "'v arg \<Rightarrow> 'v Handler" where
  "adapted h =
     (if implementsHandler h then Handler (val h)
      else if isRoboFunc h then HandlerFunc (val h)
      else if implementsHttpHandler h then httpHandler (http_Handler (val h))
      else httpHandler (http_HandlerFunc (val h)))"

text \<open>A route matches a request when the matcher's first result is true.\<close>

definition matches :: "'v check \<Rightarrow> http_Request \<Rightarrow> 'v route \<Rightarrow> bool" where
  "matches chk hr r = fst (chk r (Method hr) (Path hr))"

text \<open>
  The call that \<^verbatim>\<open>serveNext\<close> on the queue at \<open>a\<close> makes of a handler: the request
  carries the scope \<open>ps\<close> and the address of that queue.
\<close>

definition issued ::
  "qref \<Rightarrow> 'w \<Rightarrow> http_Request \<Rightarrow> Parameters option \<Rightarrow> 'v Handler \<Rightarrow> ('v, 'w) call" where
  "issued a w hr ps h = ServeRoboHTTP_call h w \<lparr>Request = hr, Params = ps, queue = Some a\<rparr>"

text \<open>Every route of a list has at least one handler.\<close>

definition nonempty_chains :: "'v route list \<Rightarrow> bool" where
  "nonempty_chains rs = list_all (\<lambda>r. route.handlers r \<noteq> []) rs"

text \<open>
  The queue that \<^verbatim>\<open>ServeRoboHTTP\<close> builds for the Mux \<open>m\<close> and the request \<open>r\<close>:
  \<^verbatim>\<open>queue{nil, m.routes, r.Params, nil}\<close>.
\<close>

definition fresh_queue :: "'v Mux \<Rightarrow> Request \<Rightarrow> 'v queue" where
  "fresh_queue m r =
     \<lparr>queue.handlers = [], queue.routes = Mux.routes m, queue.parent = Params r, self = None\<rparr>"

text \<open>
  A Mux populated solely through \<^verbatim>\<open>Add\<close>: the zero value, and the result of every
  call of \<^verbatim>\<open>Add\<close> on such a Mux that did not panic.
\<close>

inductive registered :: "'v Mux \<Rightarrow> bool" where
  zero: "registered zero_Mux"
| add: "registered m \<Longrightarrow> Add m meth pat hs = (m', None) \<Longrightarrow> registered m'"

subsection \<open>Example data\<close>

text \<open>
  Two nested scopes: the inner one rebinds \<open>id\<close> and has the empty string for
  \<open>lang\<close>.
\<close>

definition outer_scope :: Parameters where
  "outer_scope = Parameters None (Some [''id'' \<mapsto> ''7'', ''lang'' \<mapsto> ''en''])"

definition inner_scope :: Parameters where
  "inner_scope = Parameters (Some outer_scope) (Some [''id'' \<mapsto> ''42'', ''lang'' \<mapsto> ''''])"

text \<open>
  Arguments for \<^verbatim>\<open>Add\<close>, with a number as the underlying value: a plain function
  of the robo signature, a value with both a \<^verbatim>\<open>ServeRoboHTTP\<close> and a
  \<^verbatim>\<open>ServeHTTP\<close> method (as a \<^verbatim>\<open>*Mux\<close> has), a plain function of the
  \<^verbatim>\<open>net/http\<close> signature, and a value of no accepted shape.
\<close>

definition robo_func :: "nat \<Rightarrow> nat arg" where
  "robo_func v = \<lparr>val = v, implementsHandler = False, isRoboFunc = True,
                   implementsHttpHandler = False, isHttpFunc = False\<rparr>"

definition both_handler :: "nat \<Rightarrow> nat arg" where
  "both_handler v = \<lparr>val = v, implementsHandler = True, isRoboFunc = False,
                      implementsHttpHandler = True, isHttpFunc = False\<rparr>"

definition http_func :: "nat \<Rightarrow> nat arg" where
  "http_func v = \<lparr>val = v, implementsHandler = False, isRoboFunc = False,
                   implementsHttpHandler = False, isHttpFunc = True\<rparr>"

definition no_handler :: "nat \<Rightarrow> nat arg" where
  "no_handler v = \<lparr>val = v, implementsHandler = False, isRoboFunc = False,
                    implementsHttpHandler = False, isHttpFunc = False\<rparr>"

text \<open>A Mux with one route.\<close>

definition one_route_Mux :: "nat Mux" where
  "one_route_Mux = \<lparr>Mux.routes = [newRoute ''GET'' ''/a'' [HandlerFunc 1]]\<rparr>"

text \<open>
  A stand-in matcher for the examples, since \<^const>\<open>Check\<close> matches nothing: a route
  matches when its method and its pattern are the request's method and path, and the
  scope records the path.
\<close>

definition exact_match :: "'v check" where
  "exact_match r meth path =
     (if method' r = meth \<and> pattern r = path
      then (True, Some (Parameters None (Some [''matched'' \<mapsto> path])))
      else (False, None))"

text \<open>
  A request, three routes of which the last two have the same pattern, and two queues.
\<close>

definition get_a :: http_Request where
  "get_a = \<lparr>Method = ''GET'', Path = ''/a''\<rparr>"

definition route_b :: "nat route" where
  "route_b = newRoute ''GET'' ''/b'' [HandlerFunc 1]"

definition route_a :: "nat route" where
  "route_a = newRoute ''GET'' ''/a'' [HandlerFunc 2, HandlerFunc 3]"

definition route_a' :: "nat route" where
  "route_a' = newRoute ''GET'' ''/a'' [HandlerFunc 4]"

definition idle_queue :: "nat queue" where
  "idle_queue = \<lparr>queue.handlers = [], queue.routes = [route_b, route_a, route_a'],
                  queue.parent = Some outer_scope, self = None\<rparr>"

definition busy_queue :: "nat queue" where
  "busy_queue = \<lparr>queue.handlers = [HandlerFunc 3], queue.routes = [route_a'],
                  queue.parent = None, self = Some inner_scope\<rparr>"

text \<open>
  A request as a handler of an outer dispatch receives it, and a Mux built by two calls
  of \<^verbatim>\<open>Add\<close>.
\<close>

definition nested_request :: Request where
  "nested_request = \<lparr>Request = get_a, Params = Some inner_scope, queue = Some 0\<rparr>"

definition two_route_Mux :: "nat Mux" where
  "two_route_Mux =
     fst (Add (fst (Add zero_Mux ''GET'' ''/b'' [both_handler 1])) ''GET'' ''/a''
            [robo_func 2, http_func 3])"

section \<open>Properties\<close>

subsection \<open>Parameter lookup\<close>

lemma Get_own: "binding p key = Some v \<Longrightarrow> v \<noteq> [] \<Longrightarrow> Get p key = v"
  by (cases p) (auto simp add: binding_def index_map_def split: option.splits)

lemma Get_delegates:
  "unbound p key \<Longrightarrow>
   Get p key = (case Parameters.parent p of Some p' \<Rightarrow> Get p' key | None \<Rightarrow> [])"
  by (cases p) (auto simp add: unbound_def binding_def index_map_def split: option.splits)

lemma Get_empty: "\<forall>s \<in> set (chain p). unbound s key \<Longrightarrow> Get p key = []"
proof (induction p)
  case (Parameters par vs)
  have here: "unbound (Parameters par vs) key"
    using Parameters.prems by simp
  show ?case
  proof (cases par)
    case None
    with Get_delegates [OF here] show ?thesis by simp
  next
    case (Some p')
    have "Get p' key = []"
      using Parameters.IH [of p'] Parameters.prems Some by simp
    with Get_delegates [OF here] Some show ?thesis by simp
  qed
qed

text \<open>
  Claim C5. For every scope and key: \<^verbatim>\<open>Get\<close> returns the scope's own binding when
  that is present and not empty, whatever the parents bind; when the key is absent from
  the scope or bound to the empty string there, \<^verbatim>\<open>Get\<close> is the parent's
  \<^verbatim>\<open>Get\<close> if there is a parent and the empty string if there is none; and when no
  scope of the chain has a non-empty binding, \<^verbatim>\<open>Get\<close> returns the empty string.
\<close>

theorem Get_scoping:
  "(binding p key = Some v \<and> v \<noteq> [] \<longrightarrow> Get p key = v) \<and>
   (unbound p key \<longrightarrow>
      Get p key = (case Parameters.parent p of Some p' \<Rightarrow> Get p' key | None \<Rightarrow> [])) \<and>
   ((\<forall>s \<in> set (chain p). unbound s key) \<longrightarrow> Get p key = [])"
  using Get_own Get_delegates Get_empty by blast

theorem Get_scoping_witness:
  "Get inner_scope ''id'' = ''42'' \<and> Get outer_scope ''id'' = ''7'' \<and>
   Get inner_scope ''lang'' = Get outer_scope ''lang'' \<and> Get outer_scope ''lang'' = ''en'' \<and>
   Get inner_scope ''page'' = []"
  using Get_scoping [of inner_scope "''id''" "''42''"]
    Get_scoping [of outer_scope "''id''" "''7''"]
    Get_scoping [of inner_scope "''lang''"]
    Get_scoping [of outer_scope "''lang''" "''en''"]
    Get_scoping [of inner_scope "''page''"]
  by (simp add: inner_scope_def outer_scope_def binding_def unbound_def index_map_def)

subsection \<open>The matcher\<close>

text \<open>
  Claim C2. For a route registered with pattern \<^verbatim>\<open>/users/:id\<close>, \<^verbatim>\<open>Check\<close> on
  the path \<^verbatim>\<open>/users/42\<close>, with the route's method, returns true and a scope in which
  \<^verbatim>\<open>Get("id")\<close> is \<^verbatim>\<open>42\<close>, and \<^verbatim>\<open>Check\<close> on the path \<^verbatim>\<open>/users/\<close>
  returns false.

  The code does not meet the first half. The doc comment of \<^verbatim>\<open>Check\<close> says that it
  tests whether the route matches the method and path, but its body is
  \<^verbatim>\<open>// @todo\<close> followed by \<^verbatim>\<open>return false, nil\<close>: on \<^verbatim>\<open>/users/42\<close> it returns
  false and no scope, as it does on \<^verbatim>\<open>/users/\<close>.
\<close>

theorem Check_users_42_unmatched:
  "Check (newRoute ''GET'' ''/users/:id'' [HandlerFunc (1::nat)]) ''GET'' ''/users/42''
     = (False, None) \<and>
   Check (newRoute ''GET'' ''/users/:id'' [HandlerFunc (1::nat)]) ''GET'' ''/users/''
     = (False, None)"
  by (simp add: Check_def)

subsection \<open>Registration\<close>

lemma clean_handlers_eq:
  "clean_handlers hs acc =
     (if list_all recognized hs then Inr (acc @ map adapted hs) else Inl NotAValidHandler)"
  by (induction hs arbitrary: acc) (simp_all add: recognized_def adapted_def)

lemma Add_eq:
  "Add m meth pat hs =
     (if hs = [] then (m, Some NoHandlersProvided)
      else if \<not> list_all recognized hs then (m, Some NotAValidHandler)
      else (m\<lparr>Mux.routes := Mux.routes m @ [newRoute meth pat (map adapted hs)]\<rparr>, None))"
  by (simp add: Add_def clean_handlers_eq)

text \<open>
  Claim C4. \<^verbatim>\<open>Add\<close> panics when it is called with no handler argument, and panics
  when some handler argument has none of the four accepted shapes; when there is at
  least one argument and all have an accepted shape, \<^verbatim>\<open>Add\<close> does not panic and
  appends exactly one route, at the end of the registry: the route made of the method,
  the pattern and the adapted handlers in the order of the arguments.
\<close>

theorem Add_cases:
  "(hs = [] \<longrightarrow> snd (Add m meth pat hs) = Some NoHandlersProvided) \<and>
   (hs \<noteq> [] \<and> (\<exists>h \<in> set hs. \<not> recognized h) \<longrightarrow>
      snd (Add m meth pat hs) = Some NotAValidHandler) \<and>
   (hs \<noteq> [] \<and> (\<forall>h \<in> set hs. recognized h) \<longrightarrow>
      snd (Add m meth pat hs) = None \<and>
      Mux.routes (fst (Add m meth pat hs)) =
        Mux.routes m @ [\<lparr>method' = meth, pattern = pat, route.handlers = map adapted hs\<rparr>])"
  by (auto simp add: Add_eq newRoute_def list_all_iff)

theorem Add_cases_witness:
  "snd (Add zero_Mux ''GET'' ''/a'' []) = Some NoHandlersProvided \<and>
   snd (Add zero_Mux ''GET'' ''/a'' [robo_func 1, no_handler 2]) = Some NotAValidHandler \<and>
   snd (Add zero_Mux ''GET'' ''/a'' [robo_func 1, both_handler 2, http_func 3]) = None \<and>
   Mux.routes (fst (Add zero_Mux ''GET'' ''/a'' [robo_func 1, both_handler 2, http_func 3])) =
     [\<lparr>method' = ''GET'', pattern = ''/a'',
       route.handlers = [HandlerFunc 1, Handler 2, httpHandler (http_HandlerFunc 3)]\<rparr>]"
  using Add_cases [of "[]" zero_Mux "''GET''" "''/a''"]
    Add_cases [of "[robo_func 1, no_handler 2]" zero_Mux "''GET''" "''/a''"]
    Add_cases [of "[robo_func 1, both_handler 2, http_func 3]" zero_Mux "''GET''" "''/a''"]
  by (simp add: zero_Mux_def recognized_def adapted_def robo_func_def no_handler_def
      both_handler_def http_func_def)

text \<open>
  Claim C9. A call of \<^verbatim>\<open>Add\<close> that panics, for an empty argument list or for an
  argument of no accepted shape, leaves the Mux exactly as it was: the route is
  appended only after every argument has been adapted.
\<close>

theorem Add_atomic:
  "snd (Add m meth pat hs) \<noteq> None \<Longrightarrow> fst (Add m meth pat hs) = m"
  by (simp add: Add_eq split: if_splits)

theorem Add_atomic_witness:
  "snd (Add one_route_Mux ''GET'' ''/b'' [robo_func 2, no_handler 3]) \<noteq> None \<and>
   fst (Add one_route_Mux ''GET'' ''/b'' [robo_func 2, no_handler 3]) = one_route_Mux \<and>
   snd (Add one_route_Mux ''GET'' ''/b'' []) \<noteq> None \<and>
   fst (Add one_route_Mux ''GET'' ''/b'' []) = one_route_Mux"
proof -
  have p1: "snd (Add one_route_Mux ''GET'' ''/b'' [robo_func 2, no_handler 3]) \<noteq> None"
    by (simp add: Add_def robo_func_def no_handler_def)
  have p2: "snd (Add one_route_Mux ''GET'' ''/b'' []) \<noteq> None"
    by (simp add: Add_def)
  show ?thesis
    using p1 p2 Add_atomic [OF p1] Add_atomic [OF p2] by simp
qed

text \<open>
  Claim C3. Registering a route fails at registration time when the pattern is empty,
  has a Wildcard segment before the last one, has two segments capturing the same
  name, or has a Param or Wildcard with an empty name.

  The code does not meet this. The doc comment of \<^verbatim>\<open>newRoute\<close> says that it will
  panic when the pattern contains a syntax error, but its body copies the three
  arguments into the route and ends in \<^verbatim>\<open>// @todo\<close>: with one handler of an
  accepted shape, \<^verbatim>\<open>Add\<close> returns without a panic for a pattern of each of the
  four kinds, and the route with the empty pattern is in the registry.
\<close>

theorem Add_bad_pattern_registered:
  "Add zero_Mux ''GET'' '''' [robo_func 1] =
     (\<lparr>Mux.routes = [\<lparr>method' = ''GET'', pattern = '''',
                       route.handlers = [HandlerFunc 1]\<rparr>]\<rparr>, None) \<and>
   snd (Add zero_Mux ''GET'' ''/files/*rest/x'' [robo_func 1]) = None \<and>
   snd (Add zero_Mux ''GET'' ''/:id/:id'' [robo_func 1]) = None \<and>
   snd (Add zero_Mux ''GET'' ''/users/:'' [robo_func 1]) = None"
  by (simp add: Add_def newRoute_def zero_Mux_def robo_func_def)

subsection \<open>The dispatch queue: one step\<close>

lemma next_route_Nil: "queue.routes q = [] \<Longrightarrow> next_route chk q hr = Inr (q, None)"
  by (subst next_route.simps) simp

lemma next_route_skip:
  "queue.routes q = r # rs \<Longrightarrow> \<not> matches chk hr r \<Longrightarrow>
   next_route chk q hr = next_route chk (q\<lparr>queue.routes := rs\<rparr>) hr"
  by (subst next_route.simps) (auto simp add: matches_def Let_def split: prod.splits)

lemma next_route_hit:
  "queue.routes q = r # rs \<Longrightarrow> chk r (Method hr) (Path hr) = (True, params) \<Longrightarrow>
   next_route chk q hr =
     (case route.handlers r of
        [] \<Rightarrow> Inl SliceBoundsOutOfRange
      | h # hs \<Rightarrow>
          (case params of
             None \<Rightarrow> Inl NilPointerDereference
           | Some p \<Rightarrow>
               Inr (q\<lparr>queue.handlers := hs, queue.routes := rs,
                       self := Some (Parameters (queue.parent q) (values' p))\<rparr>, Some h)))"
  by (subst next_route.simps) (simp add: Let_def split: list.splits option.splits)

lemma next_route_no_match:
  "\<forall>r \<in> set (queue.routes q). \<not> matches chk hr r \<Longrightarrow>
   next_route chk q hr = Inr (q\<lparr>queue.routes := []\<rparr>, None)"
proof (induction "queue.routes q" arbitrary: q)
  case Nil
  then show ?case by (simp add: next_route_Nil)
next
  case (Cons r rs)
  have "next_route chk q hr = next_route chk (q\<lparr>queue.routes := rs\<rparr>) hr"
    using Cons.hyps(2) Cons.prems by (intro next_route_skip [of q r rs]) (simp_all add: Cons.hyps(2) [symmetric])
  also have "\<dots> = Inr (q\<lparr>queue.routes := rs\<rparr>\<lparr>queue.routes := []\<rparr>, None)"
    using Cons.hyps(2) Cons.prems by (intro Cons.hyps(1)) (simp_all add: Cons.hyps(2) [symmetric])
  finally show ?case by simp
qed

lemma next_route_first_match:
  "queue.routes q = pre @ r # post \<Longrightarrow> \<forall>x \<in> set pre. \<not> matches chk hr x \<Longrightarrow>
   chk r (Method hr) (Path hr) = (True, Some p) \<Longrightarrow> route.handlers r = h # hs \<Longrightarrow>
   next_route chk q hr =
     Inr (q\<lparr>queue.handlers := hs, queue.routes := post,
             self := Some (Parameters (queue.parent q) (values' p))\<rparr>, Some h)"
proof (induction pre arbitrary: q)
  case Nil
  then show ?case by (simp add: next_route_hit [of q r post])
next
  case (Cons x pre)
  have "next_route chk q hr = next_route chk (q\<lparr>queue.routes := pre @ r # post\<rparr>) hr"
    using Cons.prems by (intro next_route_skip [of q x]) simp_all
  also have "\<dots> = Inr (q\<lparr>queue.routes := pre @ r # post\<rparr>\<lparr>queue.handlers := hs, queue.routes := post,
             self := Some (Parameters (queue.parent (q\<lparr>queue.routes := pre @ r # post\<rparr>)) (values' p))\<rparr>, Some h)"
    using Cons.prems by (intro Cons.IH) simp_all
  finally show ?case by simp
qed

lemma next_route_cases:
  "queue.routes q = r # rs \<Longrightarrow>
   next_route chk q hr =
     (if \<not> matches chk hr r then next_route chk (q\<lparr>queue.routes := rs\<rparr>) hr
      else case route.handlers r of
             [] \<Rightarrow> Inl SliceBoundsOutOfRange
           | h # hs \<Rightarrow>
               (case snd (chk r (Method hr) (Path hr)) of
                  None \<Rightarrow> Inl NilPointerDereference
                | Some p \<Rightarrow>
                    Inr (q\<lparr>queue.handlers := hs, queue.routes := rs,
                            self := Some (Parameters (queue.parent q) (values' p))\<rparr>, Some h)))"
  by (cases "chk r (Method hr) (Path hr)")
     (auto simp add: next_route_skip next_route_hit matches_def split: list.splits option.splits)

lemma next_route_frame:
  "next_route chk q hr = Inr (q', ho) \<Longrightarrow>
   queue.parent q' = queue.parent q \<and> (\<exists>k. queue.routes q' = drop k (queue.routes q))"
proof (induction "queue.routes q" arbitrary: q)
  case Nil
  then show ?case by (simp add: next_route_Nil)
next
  case (Cons r rs)
  have rq: "queue.routes q = r # rs" using Cons.hyps(2) by simp
  show ?case
  proof (cases "matches chk hr r")
    case False
    then have "next_route chk (q\<lparr>queue.routes := rs\<rparr>) hr = Inr (q', ho)"
      using Cons.prems next_route_cases [OF rq, of chk hr] by simp
    then have "queue.parent q' = queue.parent (q\<lparr>queue.routes := rs\<rparr>) \<and>
               (\<exists>k. queue.routes q' = drop k (queue.routes (q\<lparr>queue.routes := rs\<rparr>)))"
      by (intro Cons.hyps(1)) simp_all
    then obtain k where "queue.parent q' = queue.parent q" "queue.routes q' = drop k rs" by auto
    then have "queue.routes q' = drop (Suc k) (queue.routes q)" by (simp add: rq)
    with \<open>queue.parent q' = queue.parent q\<close> show ?thesis by blast
  next
    case True
    then have "queue.parent q' = queue.parent q \<and> queue.routes q' = drop (Suc 0) (queue.routes q)"
      using Cons.prems next_route_cases [OF rq, of chk hr]
      by (auto simp add: rq split: list.splits option.splits)
    then show ?thesis by blast
  qed
qed

lemma next_route_in_bounds:
  "nonempty_chains (queue.routes q) \<Longrightarrow> next_route chk q hr \<noteq> Inl SliceBoundsOutOfRange"
proof (induction "queue.routes q" arbitrary: q)
  case Nil
  then show ?case by (simp add: next_route_Nil)
next
  case (Cons r rs)
  have rq: "queue.routes q = r # rs" using Cons.hyps(2) by simp
  have ne: "route.handlers r \<noteq> []" and rest: "nonempty_chains rs"
    using Cons.prems by (simp_all add: rq nonempty_chains_def)
  have "next_route chk (q\<lparr>queue.routes := rs\<rparr>) hr \<noteq> Inl SliceBoundsOutOfRange"
    using rest by (intro Cons.hyps(1)) simp_all
  then show ?case
    using ne next_route_cases [OF rq, of chk hr] by (auto split: list.splits option.splits)
qed

lemma serveNext_pop:
  "a < length s \<Longrightarrow> queue.handlers (s ! a) = h # hs \<Longrightarrow>
   serveNext chk a w hr s =
     Inr (s[a := (s ! a)\<lparr>queue.handlers := hs\<rparr>], [issued a w hr (self (s ! a)) h])"
  by (simp add: serveNext_def issued_def Let_def)

lemma serveNext_scan:
  "a < length s \<Longrightarrow> queue.handlers (s ! a) = [] \<Longrightarrow>
   serveNext chk a w hr s =
     (case next_route chk (s ! a) hr of
        Inl e \<Rightarrow> Inl e
      | Inr (q1, ho) \<Rightarrow>
          Inr (s[a := q1], case ho of None \<Rightarrow> [] | Some h \<Rightarrow> [issued a w hr (self q1) h]))"
  by (simp add: serveNext_def issued_def Let_def split: sum.splits option.splits prod.splits)

lemma serveNext_nil: "\<not> a < length s \<Longrightarrow> serveNext chk a w hr s = Inl NilPointerDereference"
  by (simp add: serveNext_def)

lemma serveNext_no_match:
  "a < length s \<Longrightarrow> queue.handlers (s ! a) = [] \<Longrightarrow>
   \<forall>r \<in> set (queue.routes (s ! a)). \<not> matches chk hr r \<Longrightarrow>
   serveNext chk a w hr s = Inr (s[a := (s ! a)\<lparr>queue.routes := []\<rparr>], [])"
  by (simp add: serveNext_scan next_route_no_match)

lemma serveNext_match:
  "a < length s \<Longrightarrow> queue.handlers (s ! a) = [] \<Longrightarrow>
   queue.routes (s ! a) = pre @ r # post \<Longrightarrow> \<forall>x \<in> set pre. \<not> matches chk hr x \<Longrightarrow>
   chk r (Method hr) (Path hr) = (True, Some p) \<Longrightarrow> route.handlers r = h # hs \<Longrightarrow>
   serveNext chk a w hr s =
     Inr (s[a := (s ! a)\<lparr>queue.handlers := hs, queue.routes := post,
                         self := Some (Parameters (queue.parent (s ! a)) (values' p))\<rparr>],
          [issued a w hr (Some (Parameters (queue.parent (s ! a)) (values' p))) h])"
  by (simp add: serveNext_scan next_route_first_match [of "s ! a" pre r post chk hr p h hs])

lemma serveNext_times_chain:
  "a < length s \<Longrightarrow> queue.handlers (s ! a) = hs \<Longrightarrow>
   serveNext_times chk a w hr (length hs) s =
     Inr (s[a := (s ! a)\<lparr>queue.handlers := []\<rparr>], map (issued a w hr (self (s ! a))) hs)"
proof (induction hs arbitrary: s)
  case Nil
  then have "(s ! a)\<lparr>queue.handlers := []\<rparr> = s ! a" by simp
  then show ?case by simp
next
  case (Cons h hs)
  let ?s1 = "s[a := (s ! a)\<lparr>queue.handlers := hs\<rparr>]"
  have step: "serveNext chk a w hr s = Inr (?s1, [issued a w hr (self (s ! a)) h])"
    using Cons.prems by (rule serveNext_pop)
  have rest: "serveNext_times chk a w hr (length hs) ?s1 =
      Inr (?s1[a := (?s1 ! a)\<lparr>queue.handlers := []\<rparr>], map (issued a w hr (self (?s1 ! a))) hs)"
    using Cons.prems by (intro Cons.IH) simp_all
  show ?case using Cons.prems by (simp add: step rest)
qed

lemma serveNext_times_exhausted:
  "a < length s \<Longrightarrow> queue.handlers (s ! a) = [] \<Longrightarrow> queue.routes (s ! a) = [] \<Longrightarrow>
   serveNext_times chk a w hr n s = Inr (s, [])"
proof (induction n)
  case 0
  then show ?case by simp
next
  case (Suc n)
  have "(s ! a)\<lparr>queue.routes := []\<rparr> = s ! a" using Suc.prems by simp
  then have "s[a := (s ! a)\<lparr>queue.routes := []\<rparr>] = s" by simp
  moreover have "serveNext chk a w hr s = Inr (s[a := (s ! a)\<lparr>queue.routes := []\<rparr>], [])"
    using Suc.prems by (intro serveNext_no_match) simp_all
  ultimately have "serveNext chk a w hr s = Inr (s, [])" by simp
  then show ?case using Suc by simp
qed

lemma serveNext_frame:
  "serveNext chk a w hr s = Inr (s', cs) \<Longrightarrow>
   a < length s \<and>
   (\<exists>q'. s' = s[a := q'] \<and> queue.parent q' = queue.parent (s ! a) \<and>
         (\<exists>k. queue.routes q' = drop k (queue.routes (s ! a))) \<and>
         (cs = [] \<or> (\<exists>h. cs = [issued a w hr (self q') h])))"
proof -
  assume res: "serveNext chk a w hr s = Inr (s', cs)"
  have a: "a < length s" using res serveNext_nil [of a s chk w hr] by (cases "a < length s") auto
  show ?thesis
  proof (cases "queue.handlers (s ! a)")
    case (Cons h hs)
    have "s' = s[a := (s ! a)\<lparr>queue.handlers := hs\<rparr>]"
         "cs = [issued a w hr (self ((s ! a)\<lparr>queue.handlers := hs\<rparr>)) h]"
      using res serveNext_pop [OF a Cons, of chk w hr] by simp_all
    moreover have "queue.routes ((s ! a)\<lparr>queue.handlers := hs\<rparr>) = drop 0 (queue.routes (s ! a))"
      by simp
    ultimately show ?thesis using a by (intro conjI exI [of _ "(s ! a)\<lparr>queue.handlers := hs\<rparr>"] exI [of _ 0]) auto
  next
    case Nil
    from res serveNext_scan [OF a Nil, of chk w hr]
    obtain q1 ho where nr: "next_route chk (s ! a) hr = Inr (q1, ho)"
      and s': "s' = s[a := q1]"
      and cs: "cs = (case ho of None \<Rightarrow> [] | Some h \<Rightarrow> [issued a w hr (self q1) h])"
      by (auto split: sum.splits)
    from next_route_frame [OF nr] obtain k where
      "queue.parent q1 = queue.parent (s ! a)" "queue.routes q1 = drop k (queue.routes (s ! a))"
      by blast
    then show ?thesis using a s' cs by (intro conjI exI [of _ q1] exI [of _ k]) (auto split: option.splits)
  qed
qed

subsection \<open>The dispatch queue: the claims about one step\<close>

text \<open>
  Claim C1. When the queue has no handler left and none of its remaining routes
  matches the request, \<^verbatim>\<open>serveNext\<close> returns normally, without a panic, and
  makes no handler call; the response writer goes only into handler calls, so nothing
  is written to it. The routes are used up, every other field of the queue and every
  other queue is unchanged. After that, every call of the continuation, through any
  request bound to this queue and with any response writer, returns normally, makes no
  call and changes nothing.
\<close>

theorem serveNext_exhausted:
  fixes w :: 'w
  assumes "a < length s" and "queue.handlers (s ! a) = []"
    and "\<forall>r \<in> set (queue.routes (s ! a)). \<not> matches chk hr r"
  shows "serveNext chk a w hr s = Inr (s[a := (s ! a)\<lparr>queue.routes := []\<rparr>], []) \<and>
         (\<forall>req (w' :: 'w). queue req = Some a \<longrightarrow>
            Next chk req w' (s[a := (s ! a)\<lparr>queue.routes := []\<rparr>]) =
              Inr (s[a := (s ! a)\<lparr>queue.routes := []\<rparr>], []))"
proof
  show "serveNext chk a w hr s = Inr (s[a := (s ! a)\<lparr>queue.routes := []\<rparr>], [])"
    using assms by (rule serveNext_no_match)
next
  let ?s1 = "s[a := (s ! a)\<lparr>queue.routes := []\<rparr>]"
  have len: "a < length ?s1" using assms(1) by simp
  have hs: "queue.handlers (?s1 ! a) = []" using assms(1,2) by simp
  have rs: "queue.routes (?s1 ! a) = []" using assms(1) by simp
  have "serveNext chk a w' hr' ?s1 = Inr (?s1, [])" for w' :: 'w and hr'
    using serveNext_times_exhausted [OF len hs rs, of chk w' hr' "Suc 0"]
    by (simp split: sum.splits)
  then show "\<forall>req (w' :: 'w). queue req = Some a \<longrightarrow> Next chk req w' ?s1 = Inr (?s1, [])"
    by (simp add: Next_def)
qed

theorem serveNext_exhausted_witness:
  "serveNext Check 0 () get_a [idle_queue] = Inr ([idle_queue\<lparr>queue.routes := []\<rparr>], []) \<and>
   Next Check \<lparr>Request = get_a, Params = None, queue = Some 0\<rparr> ()
     [idle_queue\<lparr>queue.routes := []\<rparr>] = Inr ([idle_queue\<lparr>queue.routes := []\<rparr>], [])"
proof -
  have h1: "0 < length [idle_queue]" by simp
  have h2: "queue.handlers ([idle_queue] ! 0) = []" by (simp add: idle_queue_def)
  have h3: "\<forall>r \<in> set (queue.routes ([idle_queue] ! 0)). \<not> matches Check get_a r"
    by (simp add: matches_def Check_def)
  show ?thesis
    using serveNext_exhausted [OF h1 h2 h3, of "()"] by simp
qed

text \<open>
  Claim C6. When the queue has a handler left, \<^verbatim>\<open>serveNext\<close> removes exactly the
  front handler from the list and makes exactly one call, of that handler, with the
  response writer it was given and a request that carries the queue's current scope
  and the address of this same queue: \<^verbatim>\<open>Next\<close> on that request is
  \<^verbatim>\<open>serveNext\<close> on this queue. The remaining routes are not looked at: they are
  unchanged, and the result is the same for every matcher.
\<close>

theorem serveNext_front_handler:
  fixes w :: 'w
  assumes "a < length s" and "queue.handlers (s ! a) = h # hs"
  shows "serveNext chk a w hr s =
           Inr (s[a := (s ! a)\<lparr>queue.handlers := hs\<rparr>],
                [ServeRoboHTTP_call h w \<lparr>Request = hr, Params = self (s ! a), queue = Some a\<rparr>]) \<and>
         (\<forall>(w' :: 'w) s'. Next chk \<lparr>Request = hr, Params = self (s ! a), queue = Some a\<rparr> w' s' =
                   serveNext chk a w' hr s')"
  using serveNext_pop [OF assms, of chk w hr] by (simp add: issued_def Next_def)

theorem serveNext_front_handler_witness:
  "serveNext exact_match 1 () get_a [idle_queue, busy_queue] =
     Inr ([idle_queue, busy_queue\<lparr>queue.handlers := []\<rparr>],
          [ServeRoboHTTP_call (HandlerFunc 3) ()
             \<lparr>Request = get_a, Params = Some inner_scope, queue = Some 1\<rparr>])"
proof -
  have h1: "1 < length [idle_queue, busy_queue]" by simp
  have h2: "queue.handlers ([idle_queue, busy_queue] ! 1) = HandlerFunc 3 # []"
    by (simp add: busy_queue_def)
  show ?thesis
    using serveNext_front_handler [OF h1 h2, of exact_match "()" get_a]
    by (simp add: busy_queue_def)
qed

text \<open>
  Claim C7. When the queue has no handler left and its routes are \<open>pre @ r # post\<close>,
  where no route of \<open>pre\<close> matches and \<open>r\<close> matches with the scope \<open>p\<close>, then
  \<^verbatim>\<open>serveNext\<close> drops the routes of \<open>pre\<close> and \<open>r\<close>, sets the parent of the
  returned scope to the queue's parent scope and installs it as the queue's current
  scope, sets the remaining handlers to all but the first handler of \<open>r\<close>, and makes
  exactly one call, of that first handler. Continuing as often as \<open>r\<close> has handlers
  calls them all, in the order of the route, with that same scope.
\<close>

theorem serveNext_first_match:
  assumes "a < length s" and "queue.handlers (s ! a) = []"
    and "queue.routes (s ! a) = pre @ r # post"
    and "\<forall>x \<in> set pre. \<not> matches chk hr x"
    and "chk r (Method hr) (Path hr) = (True, Some p)"
    and "route.handlers r = h # hs"
  shows "serveNext chk a w hr s =
           Inr (s[a := (s ! a)\<lparr>queue.handlers := hs, queue.routes := post,
                               self := Some (Parameters (queue.parent (s ! a)) (values' p))\<rparr>],
                [issued a w hr (Some (Parameters (queue.parent (s ! a)) (values' p))) h]) \<and>
         serveNext_times chk a w hr (Suc (length hs)) s =
           Inr (s[a := (s ! a)\<lparr>queue.handlers := [], queue.routes := post,
                               self := Some (Parameters (queue.parent (s ! a)) (values' p))\<rparr>],
                map (issued a w hr (Some (Parameters (queue.parent (s ! a)) (values' p)))) (h # hs))"
proof -
  let ?sc = "Some (Parameters (queue.parent (s ! a)) (values' p))"
  let ?q1 = "(s ! a)\<lparr>queue.handlers := hs, queue.routes := post, self := ?sc\<rparr>"
  let ?s1 = "s[a := ?q1]"
  have first: "serveNext chk a w hr s = Inr (?s1, [issued a w hr ?sc h])"
    using assms by (rule serveNext_match)
  have len: "a < length ?s1" using assms(1) by simp
  have hs: "queue.handlers (?s1 ! a) = hs" using assms(1) by simp
  have rest: "serveNext_times chk a w hr (length hs) ?s1 =
      Inr (?s1[a := (?s1 ! a)\<lparr>queue.handlers := []\<rparr>], map (issued a w hr (self (?s1 ! a))) hs)"
    using len hs by (rule serveNext_times_chain)
  have times: "serveNext_times chk a w hr (Suc (length hs)) s =
      Inr (?s1[a := (?s1 ! a)\<lparr>queue.handlers := []\<rparr>],
           issued a w hr ?sc h # map (issued a w hr (self (?s1 ! a))) hs)"
    by (simp add: first rest)
  have q: "(?s1 ! a)\<lparr>queue.handlers := []\<rparr> =
      (s ! a)\<lparr>queue.handlers := [], queue.routes := post, self := ?sc\<rparr>"
    using assms(1) by (intro queue.equality) simp_all
  have st: "?s1[a := (?s1 ! a)\<lparr>queue.handlers := []\<rparr>] =
      s[a := (s ! a)\<lparr>queue.handlers := [], queue.routes := post, self := ?sc\<rparr>]"
    unfolding q by simp
  have sc: "self (?s1 ! a) = ?sc"
    using assms(1) by simp
  show ?thesis
    using first times unfolding st sc by simp
qed

theorem serveNext_first_match_witness:
  "serveNext exact_match 0 () get_a [idle_queue] =
     Inr ([idle_queue\<lparr>queue.handlers := [HandlerFunc 3], queue.routes := [route_a'],
                        self := Some (Parameters (Some outer_scope) (Some [''matched'' \<mapsto> ''/a'']))\<rparr>],
          [issued 0 () get_a (Some (Parameters (Some outer_scope) (Some [''matched'' \<mapsto> ''/a''])))
             (HandlerFunc 2)]) \<and>
   serveNext_times exact_match 0 () get_a 2 [idle_queue] =
     Inr ([idle_queue\<lparr>queue.handlers := [], queue.routes := [route_a'],
                        self := Some (Parameters (Some outer_scope) (Some [''matched'' \<mapsto> ''/a'']))\<rparr>],
          [issued 0 () get_a (Some (Parameters (Some outer_scope) (Some [''matched'' \<mapsto> ''/a''])))
             (HandlerFunc 2),
           issued 0 () get_a (Some (Parameters (Some outer_scope) (Some [''matched'' \<mapsto> ''/a''])))
             (HandlerFunc 3)])"
proof -
  have h1: "0 < length [idle_queue]" by simp
  have h2: "queue.handlers ([idle_queue] ! 0) = []" by (simp add: idle_queue_def)
  have h3: "queue.routes ([idle_queue] ! 0) = [route_b] @ route_a # [route_a']"
    by (simp add: idle_queue_def)
  have h4: "\<forall>x \<in> set [route_b]. \<not> matches exact_match get_a x"
    by (simp add: matches_def exact_match_def route_b_def newRoute_def get_a_def)
  have h5: "exact_match route_a (Method get_a) (Path get_a) =
              (True, Some (Parameters None (Some [''matched'' \<mapsto> ''/a''])))"
    by (simp add: exact_match_def route_a_def newRoute_def get_a_def)
  have h6: "route.handlers route_a = HandlerFunc 2 # [HandlerFunc 3]"
    by (simp add: route_a_def newRoute_def)
  have two: "Suc (length [HandlerFunc (3::nat)]) = 2" by simp
  show ?thesis
    using serveNext_first_match [OF h1 h2 h3 h4 h5 h6, of "()"]
    unfolding two by (simp add: idle_queue_def)
qed

subsection \<open>The dispatch entry\<close>

lemma ServeRoboHTTP_eq:
  "ServeRoboHTTP chk m w r s = serveNext chk (length s) w (Request r) (s @ [fresh_queue m r])"
  by (simp add: ServeRoboHTTP_def fresh_queue_def)

lemma ServeRoboHTTP_frame:
  assumes "ServeRoboHTTP chk m w r s = Inr (s', cs)"
  shows "\<exists>q'. s' = s @ [q'] \<and> queue.parent q' = Params r \<and>
              (cs = [] \<or> (\<exists>h. cs = [issued (length s) w (Request r) (self q') h]))"
proof -
  from assms have "serveNext chk (length s) w (Request r) (s @ [fresh_queue m r]) = Inr (s', cs)"
    by (simp add: ServeRoboHTTP_eq)
  from serveNext_frame [OF this] obtain q' where
    "s' = (s @ [fresh_queue m r])[length s := q']"
    "queue.parent q' = queue.parent ((s @ [fresh_queue m r]) ! length s)"
    "cs = [] \<or> (\<exists>h. cs = [issued (length s) w (Request r) (self q') h])"
    by blast
  then show ?thesis by (intro exI [of _ q']) (simp add: fresh_queue_def)
qed

text \<open>
  With the repository's matcher no route matches, so a dispatch calls no handler: it
  leaves the new queue behind with its routes used up.
\<close>

lemma dispatch_with_Check:
  "ServeHTTP Check m w hr s =
     Inr (s @ [\<lparr>queue.handlers = [], queue.routes = [], queue.parent = None, self = None\<rparr>], [])"
  using serveNext_no_match
    [of "length s" "s @ [fresh_queue m \<lparr>Request = hr, Params = None, queue = None\<rparr>]" Check hr w]
  by (simp add: ServeHTTP_def ServeRoboHTTP_eq fresh_queue_def matches_def Check_def)

text \<open>
  Claim C8. For every Mux and request, \<^verbatim>\<open>ServeRoboHTTP\<close> allocates a new queue
  with no current handler, all the routes of the Mux in their order, the
  \<^verbatim>\<open>Params\<close> of the incoming request as parent scope and no current scope, and is
  one call of \<^verbatim>\<open>serveNext\<close> on it; \<^verbatim>\<open>ServeHTTP\<close> is the same with no parent
  scope. When the call returns, the store holds the queues it held, unchanged, and the
  new queue, whose parent scope still is the \<^verbatim>\<open>Params\<close> of the incoming request;
  at most one handler was called, with a request bound to the new queue.
\<close>

theorem dispatch_entry:
  fixes w :: 'w
  shows "ServeRoboHTTP chk m w r s =
           serveNext chk (length s) w (Request r)
             (s @ [\<lparr>queue.handlers = [], queue.routes = Mux.routes m,
                     queue.parent = Params r, self = None\<rparr>]) \<and>
         ServeHTTP chk m w hr s =
           serveNext chk (length s) w hr
             (s @ [\<lparr>queue.handlers = [], queue.routes = Mux.routes m,
                     queue.parent = None, self = None\<rparr>]) \<and>
         (\<forall>s' cs. ServeRoboHTTP chk m w r s = Inr (s', cs) \<longrightarrow>
            (\<exists>q'. s' = s @ [q'] \<and> queue.parent q' = Params r \<and>
                  (cs = [] \<or> (\<exists>h. cs = [issued (length s) w (Request r) (self q') h]))))"
  using ServeRoboHTTP_frame [of chk m w r s]
  by (simp add: ServeRoboHTTP_def ServeHTTP_def)

theorem dispatch_entry_witness:
  "ServeHTTP Check two_route_Mux () get_a [] =
     Inr ([\<lparr>queue.handlers = [], queue.routes = [], queue.parent = None, self = None\<rparr>], []) \<and>
   ServeRoboHTTP exact_match two_route_Mux () nested_request [busy_queue] =
     Inr ([busy_queue,
           \<lparr>queue.handlers = [httpHandler (http_HandlerFunc 3)], queue.routes = [],
             queue.parent = Some inner_scope,
             self = Some (Parameters (Some inner_scope) (Some [''matched'' \<mapsto> ''/a'']))\<rparr>],
          [issued 1 () get_a (Some (Parameters (Some inner_scope) (Some [''matched'' \<mapsto> ''/a''])))
             (HandlerFunc 2)])"
proof -
  have m: "Mux.routes two_route_Mux =
      [newRoute ''GET'' ''/b'' [Handler 1],
       newRoute ''GET'' ''/a'' [HandlerFunc 2, httpHandler (http_HandlerFunc 3)]]"
    by (simp add: two_route_Mux_def Add_def zero_Mux_def both_handler_def robo_func_def
        http_func_def)
  show ?thesis
    using dispatch_entry [of Check two_route_Mux "()" nested_request "[]" get_a]
      dispatch_entry [of exact_match two_route_Mux "()" nested_request "[busy_queue]" get_a]
    by (simp add: m serveNext_def next_route.simps Check_def exact_match_def newRoute_def
        get_a_def nested_request_def issued_def)
qed

subsection \<open>Handler chains are not empty\<close>

lemma registered_nonempty: "registered m \<Longrightarrow> nonempty_chains (Mux.routes m)"
proof (induction rule: registered.induct)
  case zero
  show ?case by (simp add: zero_Mux_def nonempty_chains_def)
next
  case (add m meth pat hs m')
  from add.hyps(2) have "hs \<noteq> []"
    and "m' = m\<lparr>Mux.routes := Mux.routes m @ [newRoute meth pat (map adapted hs)]\<rparr>"
    by (simp_all add: Add_eq split: if_splits)
  with add.IH show ?case by (simp add: nonempty_chains_def newRoute_def)
qed

lemma serveNext_in_bounds:
  "nonempty_chains (queue.routes (s ! a)) \<Longrightarrow>
   serveNext chk a w hr s \<noteq> Inl SliceBoundsOutOfRange"
proof (cases "a < length s")
  case False
  then show ?thesis by (simp add: serveNext_nil)
next
  case True
  assume ne: "nonempty_chains (queue.routes (s ! a))"
  show ?thesis
  proof (cases "queue.handlers (s ! a)")
    case (Cons h hs)
    then show ?thesis by (simp add: serveNext_pop [OF True])
  next
    case Nil
    with next_route_in_bounds [OF ne, of chk hr] show ?thesis
      by (auto simp add: serveNext_scan [OF True] split: sum.splits prod.splits)
  qed
qed

lemma serveNext_keeps_chains:
  assumes "serveNext chk a w hr s = Inr (s', cs)"
    and "nonempty_chains (queue.routes (s ! a))"
  shows "nonempty_chains (queue.routes (s' ! a))"
proof -
  from serveNext_frame [OF assms(1)] obtain q' k where
    "a < length s" "s' = s[a := q']" "queue.routes q' = drop k (queue.routes (s ! a))"
    by blast
  with assms(2) show ?thesis
    by (simp add: nonempty_chains_def list_all_iff) (meson in_set_dropD)
qed

lemma serveNext_times_in_bounds:
  "nonempty_chains (queue.routes (s ! a)) \<Longrightarrow>
   serveNext_times chk a w hr n s \<noteq> Inl SliceBoundsOutOfRange"
proof (induction n arbitrary: s)
  case 0
  show ?case by simp
next
  case (Suc n)
  show ?case
  proof (cases "serveNext chk a w hr s")
    case (Inl e)
    with serveNext_in_bounds [OF Suc.prems, of chk w hr] show ?thesis by simp
  next
    case (Inr res)
    obtain s1 cs where res: "res = (s1, cs)" by (cases res)
    have "nonempty_chains (queue.routes (s1 ! a))"
      using Inr res Suc.prems by (intro serveNext_keeps_chains [of chk a w hr s s1 cs]) simp_all
    then have "serveNext_times chk a w hr n s1 \<noteq> Inl SliceBoundsOutOfRange"
      by (rule Suc.IH)
    with Inr res show ?thesis by (auto split: sum.splits)
  qed
qed

text \<open>
  Claim C10. Every route of a Mux populated solely through \<^verbatim>\<open>Add\<close> has at least
  one handler. Therefore a dispatch on such a Mux, and every later call of the
  continuation of its queue, never panics on \<^verbatim>\<open>r.handlers[1:]\<close> or
  \<^verbatim>\<open>r.handlers[0]\<close>, whatever the matcher answers.
\<close>

theorem registered_in_bounds:
  fixes m :: "'v Mux"
  assumes "registered m"
  shows "(\<forall>r \<in> set (Mux.routes m). route.handlers r \<noteq> []) \<and>
         (\<forall>chk (w :: 'w) r s. ServeRoboHTTP chk m w r s \<noteq> Inl SliceBoundsOutOfRange) \<and>
         (\<forall>chk (w :: 'w) r s n.
            serveNext_times chk (length s) w (Request r) n (s @ [fresh_queue m r])
              \<noteq> Inl SliceBoundsOutOfRange)"
proof -
  have ne: "nonempty_chains (Mux.routes m)"
    using assms by (rule registered_nonempty)
  have q: "nonempty_chains (queue.routes ((s @ [fresh_queue m r]) ! length s))" for s :: "'v store" and r
    using ne by (simp add: fresh_queue_def)
  have "ServeRoboHTTP chk m w r s \<noteq> Inl SliceBoundsOutOfRange" for chk and w :: 'w and r s
    using serveNext_in_bounds [where s = "s @ [fresh_queue m r]" and a = "length s" and chk = chk
        and w = w and hr = "Request r", OF q]
    by (simp add: ServeRoboHTTP_def fresh_queue_def)
  moreover have "serveNext_times chk (length s) w (Request r) n (s @ [fresh_queue m r])
      \<noteq> Inl SliceBoundsOutOfRange" for chk and w :: 'w and r s n
    using q by (rule serveNext_times_in_bounds)
  ultimately show ?thesis
    using ne by (simp add: nonempty_chains_def list_all_iff)
qed

theorem registered_in_bounds_witness:
  "registered two_route_Mux \<and>
   map route.handlers (Mux.routes two_route_Mux) =
     [[Handler 1], [HandlerFunc 2, httpHandler (http_HandlerFunc 3)]] \<and>
   ServeRoboHTTP exact_match two_route_Mux () nested_request [] \<noteq> Inl SliceBoundsOutOfRange \<and>
   serveNext_times exact_match 0 () get_a 3 [fresh_queue two_route_Mux nested_request]
     \<noteq> Inl SliceBoundsOutOfRange"
proof -
  have a1: "Add zero_Mux ''GET'' ''/b'' [both_handler 1] =
      (fst (Add zero_Mux ''GET'' ''/b'' [both_handler 1]), None)"
    by (simp add: Add_def both_handler_def)
  have a2: "Add (fst (Add zero_Mux ''GET'' ''/b'' [both_handler 1])) ''GET'' ''/a''
      [robo_func 2, http_func 3] = (two_route_Mux, None)"
    by (simp add: two_route_Mux_def Add_def robo_func_def http_func_def)
  have reg: "registered two_route_Mux"
    by (rule registered.add [OF registered.add [OF registered.zero a1] a2])
  have m: "map route.handlers (Mux.routes two_route_Mux) =
     [[Handler 1], [HandlerFunc 2, httpHandler (http_HandlerFunc 3)]]"
    by (simp add: two_route_Mux_def Add_def zero_Mux_def both_handler_def robo_func_def
        http_func_def newRoute_def)
  have "ServeRoboHTTP exact_match two_route_Mux () nested_request [] \<noteq> Inl SliceBoundsOutOfRange"
    using registered_in_bounds [OF reg, THEN conjunct2, THEN conjunct1, rule_format,
        where chk = exact_match and w = "()" and r = nested_request and s = "[]"] .
  moreover
  have "serveNext_times exact_match 0 () get_a 3 [fresh_queue two_route_Mux nested_request]
     \<noteq> Inl SliceBoundsOutOfRange"
    using registered_in_bounds [OF reg, THEN conjunct2, THEN conjunct2, rule_format,
        where chk = exact_match and w = "()" and r = nested_request and s = "[]" and n = 3]
    by (simp add: nested_request_def)
  ultimately show ?thesis using reg m by simp
qed

end
